theory Spec2Isabelle
  imports Main "HOL-Library.Word"
begin

unbundle bit_operations_syntax

section \<open>The FAST corner detector of \<^verbatim>\<open>main.go\<close>\<close>

text \<open>
  Go's \<^verbatim>\<open>int\<close> is a 64-bit two's-complement integer. Pixel intensities and the
  threshold are values the caller chooses freely and they are only ever subtracted and
  compared, so they are modelled as \<open>64 word\<close>: \<open>-\<close> wraps as Go's does and \<open><s\<close> is
  the signed comparison.

  Image dimensions, loop counters, buffer indices and the reported coordinates are
  modelled as \<open>int\<close>, without wrap-around. They are only used to bound the loops and
  to address the pixel slice. A slice of 64-bit integers has fewer than \<open>2 ^ 61\<close>
  elements, so a row whose reads are all in range has indices far below \<open>2 ^ 63\<close>, and
  the first read that leaves the slice panics before any later index is computed. The
  model therefore agrees with the program for all widths and heights that are below
  \<open>2 ^ 60\<close> in absolute value; dimensions within 3 of the most negative \<^verbatim>\<open>int\<close>, where
  \<^verbatim>\<open>width-3\<close> itself wraps, are outside the model.

  A slice read out of range panics in Go. The reads of \<^verbatim>\<open>findCorners\<close> are modelled
  with \<open>option\<close>: \<open>None\<close> is the panic, which discards the corners found so far.
\<close>

type_synonym goint = "64 word"

subsection \<open>Pixel comparator\<close>

definition isBrighter :: "goint \<Rightarrow> goint \<Rightarrow> goint \<Rightarrow> bool" where
  "isBrighter circlePixel p threshold = (threshold <s circlePixel - p)"

definition isDarker :: "goint \<Rightarrow> goint \<Rightarrow> goint \<Rightarrow> bool" where
  "isDarker circlePixel p threshold = (threshold <s p - circlePixel)"

subsection \<open>Circle geometry\<close>

definition getCircleOffsets :: "int \<Rightarrow> int list" where
  "getCircleOffsets width =
    (let c0 = - width - width - width;
         c1 = c0 + 1;
         c2 = c1 + width + 1;
         c3 = c2 + width + 1;
         c4 = c3 + width;
         c5 = c4 + width;
         c6 = c5 + width - 1;
         c7 = c6 + width - 1;
         c8 = c7 - 1;
         c9 = c8 - 1;
         c10 = c9 - width - 1;
         c11 = c10 - width - 1;
         c12 = c11 - width;
         c13 = c12 - width;
         c14 = c13 - width + 1;
         c15 = c14 - width + 1
     in [c0, c1, c2, c3, c4, c5, c6, c7, c8, c9, c10, c11, c12, c13, c14, c15])"



subsection \<open>Fast rejection test\<close>

definition isTriviallyExcluded :: "goint list \<Rightarrow> goint \<Rightarrow> goint \<Rightarrow> bool" where
  "isTriviallyExcluded circlePixels p threshold =
    (let circleBottom = circlePixels ! 8;
         circleLeft = circlePixels ! 12;
         circleRight = circlePixels ! 4;
         circleTop = circlePixels ! 0;
         count = (0::nat);
         count = (if isBrighter circleTop p threshold then count + 1 else count);
         count = (if isBrighter circleRight p threshold then count + 1 else count);
         count = (if isBrighter circleBottom p threshold then count + 1 else count);
         count = (if isBrighter circleLeft p threshold then count + 1 else count)
     in if count < 3 then
          (let count = (0::nat);
               count = (if isDarker circleTop p threshold then count + 1 else count);
               count = (if isDarker circleRight p threshold then count + 1 else count);
               count = (if isDarker circleBottom p threshold then count + 1 else count);
               count = (if isDarker circleLeft p threshold then count + 1 else count)
           in if count < 3 then True else False)
        else False)"

subsection \<open>Segment test\<close>

text \<open>
  The inner loop over \<open>y\<close> of \<^verbatim>\<open>isCorner\<close>, with its two \<^verbatim>\<open>break\<close>s. The state is
  the pair of flags \<open>(brighter, darker)\<close>; the result is their value when the loop is
  left.
\<close>

function arcLoop ::
  "goint \<Rightarrow> goint list \<Rightarrow> goint \<Rightarrow> nat \<Rightarrow> nat \<Rightarrow> bool \<Rightarrow> bool \<Rightarrow> bool \<times> bool" where
  "arcLoop p circlePixels threshold x y brighter darker =
    (if y < 9 then
       (let circlePixel = circlePixels ! ((x + y) AND 15) in
        if \<not> isBrighter p circlePixel threshold \<and> \<not> darker then (False, darker)
        else
          (let brighter' = (if \<not> isBrighter p circlePixel threshold then False else brighter) in
           if \<not> isDarker p circlePixel threshold \<and> \<not> brighter' then (brighter', False)
           else
             (let darker' = (if \<not> isDarker p circlePixel threshold then False else darker)
              in arcLoop p circlePixels threshold x (y + 1) brighter' darker')))
     else (brighter, darker))"
  by pat_completeness auto
termination
  by (relation "measure (\<lambda>(p, cp, t, x, y, b, d). 9 - y)") auto

declare arcLoop.simps [simp del]

text \<open>The outer loop over the 16 starting positions \<open>x\<close>.\<close>

function startLoop :: "goint \<Rightarrow> goint list \<Rightarrow> goint \<Rightarrow> nat \<Rightarrow> bool" where
  "startLoop p circlePixels threshold x =
    (if x < 16 then
       (case arcLoop p circlePixels threshold x 0 True True of
          (brighter, darker) \<Rightarrow>
            if brighter \<or> darker then True
            else startLoop p circlePixels threshold (x + 1))
     else False)"
  by pat_completeness auto
termination
  by (relation "measure (\<lambda>(p, cp, t, x). 16 - x)") auto

declare startLoop.simps [simp del]

definition isCorner :: "goint \<Rightarrow> goint list \<Rightarrow> goint \<Rightarrow> bool" where
  "isCorner p circlePixels threshold =
    (if isTriviallyExcluded circlePixels p threshold then False
     else startLoop p circlePixels threshold 0)"

subsection \<open>Scan driver\<close>

text \<open>A read of the pixel slice: Go panics when the index is out of range.\<close>

definition readPixel :: "goint list \<Rightarrow> int \<Rightarrow> goint option" where
  "readPixel pixels i =
    (if 0 \<le> i \<and> i < int (length pixels) then Some (pixels ! nat i) else None)"

text \<open>The loop over \<open>k\<close> that fills the 16-entry array \<^verbatim>\<open>circlePixels\<close>.\<close>

function gatherLoop ::
  "goint list \<Rightarrow> int \<Rightarrow> int list \<Rightarrow> nat \<Rightarrow> goint list \<Rightarrow> goint list option" where
  "gatherLoop pixels w circleOffsets k circlePixels =
    (if k < 16 then
       (case readPixel pixels (w + circleOffsets ! k) of
          None \<Rightarrow> None
        | Some v \<Rightarrow> gatherLoop pixels w circleOffsets (k + 1) (circlePixels[k := v]))
     else Some circlePixels)"
  by pat_completeness auto
termination
  by (relation "measure (\<lambda>(px, w, offs, k, cp). 16 - k)") auto

declare gatherLoop.simps [simp del]

text \<open>
  The loop over the columns \<open>j\<close> of row \<open>i\<close>. The state is the array
  \<^verbatim>\<open>circlePixels\<close>, which lives across iterations, and the slice \<^verbatim>\<open>corners\<close>.
  After a corner the counter is advanced by 3 and then by the loop's own increment.
\<close>

function colLoop ::
  "goint list \<Rightarrow> int \<Rightarrow> goint \<Rightarrow> int list \<Rightarrow> int \<Rightarrow> int \<Rightarrow> goint list \<Rightarrow> int list
     \<Rightarrow> (goint list \<times> int list) option" where
  "colLoop pixels width threshold circleOffsets i j circlePixels corners =
    (if j < width - 3 then
       (let w = i * width + j in
        case readPixel pixels w of
          None \<Rightarrow> None
        | Some p \<Rightarrow>
            (case gatherLoop pixels w circleOffsets 0 circlePixels of
               None \<Rightarrow> None
             | Some circlePixels' \<Rightarrow>
                 if isCorner p circlePixels' threshold
                 then colLoop pixels width threshold circleOffsets i (j + 3 + 1)
                        circlePixels' (corners @ [j, i])
                 else colLoop pixels width threshold circleOffsets i (j + 1)
                        circlePixels' corners))
     else Some (circlePixels, corners))"
  by pat_completeness auto
termination
  by (relation "measure (\<lambda>(px, width, t, offs, i, j, cp, cs). nat (width - 3 - j))") auto

declare colLoop.simps [simp del]

text \<open>The loop over the rows \<open>i\<close>.\<close>

function rowLoop ::
  "goint list \<Rightarrow> int \<Rightarrow> int \<Rightarrow> goint \<Rightarrow> int list \<Rightarrow> int \<Rightarrow> goint list \<Rightarrow> int list
     \<Rightarrow> int list option" where
  "rowLoop pixels width height threshold circleOffsets i circlePixels corners =
    (if i < height - 3 then
       (case colLoop pixels width threshold circleOffsets i 3 circlePixels corners of
          None \<Rightarrow> None
        | Some (circlePixels', corners') \<Rightarrow>
            rowLoop pixels width height threshold circleOffsets (i + 1) circlePixels' corners')
     else Some corners)"
  by pat_completeness auto
termination
  by (relation "measure (\<lambda>(px, width, height, t, offs, i, cp, cs). nat (height - 3 - i))") auto

declare rowLoop.simps [simp del]

definition findCorners :: "goint list \<Rightarrow> int \<Rightarrow> int \<Rightarrow> goint \<Rightarrow> int list option" where
  "findCorners pixels width height threshold =
    (let circleOffsets = getCircleOffsets width;
         circlePixels = replicate 16 0;
         corners = []
     in rowLoop pixels width height threshold circleOffsets 3 circlePixels corners)"

subsection \<open>Reading the result\<close>

text \<open>
  \<^verbatim>\<open>findCorners\<close> returns the coordinates interleaved, \<open>x\<close> before \<open>y\<close>, as
  \<^verbatim>\<open>main\<close> reads them back (\<^verbatim>\<open>cornerList[i], cornerList[i+1]\<close>).
\<close>

fun pairs :: "int list \<Rightarrow> (int \<times> int) list" where
  "pairs (x # y # cs) = (x, y) # pairs cs"
| "pairs _ = []"

definition interleave :: "(int \<times> int) list \<Rightarrow> int list" where
  "interleave ps = concat (map (\<lambda>(x, y). [x, y]) ps)"

text \<open>
  The circle sample and the verdict for the candidate in row \<open>i\<close>, column \<open>j\<close>, as
  functions of the image alone.
\<close>

definition sampleAt :: "goint list \<Rightarrow> int \<Rightarrow> int \<Rightarrow> int \<Rightarrow> goint list" where
  "sampleAt pixels width i j =
     map (\<lambda>k. pixels ! nat (i * width + j + getCircleOffsets width ! k)) [0..<16]"

definition accepts :: "goint list \<Rightarrow> int \<Rightarrow> goint \<Rightarrow> int \<Rightarrow> int \<Rightarrow> bool" where
  "accepts pixels width threshold i j =
     isCorner (pixels ! nat (i * width + j)) (sampleAt pixels width i j) threshold"

definition readable :: "goint list \<Rightarrow> int \<Rightarrow> int \<Rightarrow> int \<Rightarrow> bool" where
  "readable pixels width i j \<longleftrightarrow>
     0 \<le> i * width + j \<and> i * width + j < int (length pixels) \<and>
     (\<forall>k < 16. 0 \<le> i * width + j + getCircleOffsets width ! k \<and>
                i * width + j + getCircleOffsets width ! k < int (length pixels))"

text \<open>
  The scan as the specification describes it: rows 3 to \<open>height - 4\<close>, in each row the
  columns from 3 to \<open>width - 4\<close>, an accepted candidate is reported and the next
  candidate of the row is four columns further.
\<close>

function scanRow :: "(int \<Rightarrow> bool) \<Rightarrow> int \<Rightarrow> int \<Rightarrow> int \<Rightarrow> (int \<times> int) list" where
  "scanRow accept width row col =
    (if col \<le> width - 4 then
       (if accept col then (col, row) # scanRow accept width row (col + 4)
        else scanRow accept width row (col + 1))
     else [])"
  by pat_completeness auto
termination
  by (relation "measure (\<lambda>(acc, width, row, col). nat (width - 3 - col))") auto

declare scanRow.simps [simp del]

definition scanImage :: "(int \<Rightarrow> int \<Rightarrow> bool) \<Rightarrow> int \<Rightarrow> int \<Rightarrow> (int \<times> int) list" where
  "scanImage accept width height =
     concat (map (\<lambda>row. scanRow (accept row) width row 3) [3..height - 4])"

subsection \<open>Auxiliary notions for the segment test\<close>

text \<open>
  The main loop of \<^verbatim>\<open>isCorner\<close> on its own, that is the segment test without the
  fast rejection in front of it.
\<close>

definition segmentTest :: "goint \<Rightarrow> goint list \<Rightarrow> goint \<Rightarrow> bool" where
  "segmentTest p circlePixels threshold = startLoop p circlePixels threshold 0"

text \<open>
  What is left to check of the arc that starts at \<open>x\<close> when the inner loop is at
  \<open>y\<close>, for each of the two flags.
\<close>

definition arcB :: "goint \<Rightarrow> goint list \<Rightarrow> goint \<Rightarrow> nat \<Rightarrow> nat \<Rightarrow> bool" where
  "arcB p cp t x y \<longleftrightarrow>
     (\<forall>y'. y \<le> y' \<and> y' < 9 \<longrightarrow> isBrighter p (cp ! ((x + y') mod 16)) t)"

definition arcD :: "goint \<Rightarrow> goint list \<Rightarrow> goint \<Rightarrow> nat \<Rightarrow> nat \<Rightarrow> bool" where
  "arcD p cp t x y \<longleftrightarrow>
     (\<forall>y'. y \<le> y' \<and> y' < 9 \<longrightarrow> isDarker p (cp ! ((x + y') mod 16)) t)"

subsection \<open>Auxiliary notions for the scan\<close>

text \<open>The rows of the scan from row \<open>i\<close> on.\<close>

definition scanRows :: "(int \<Rightarrow> int \<Rightarrow> bool) \<Rightarrow> int \<Rightarrow> int \<Rightarrow> int \<Rightarrow> (int \<times> int) list" where
  "scanRows accept width height i = concat (map (\<lambda>row. scanRow (accept row) width row 3) [i..height - 4])"

text \<open>
  The order in which corners are reported: rows grow, and inside a row the columns grow
  by at least 4.
\<close>

definition cornerOrder :: "int \<times> int \<Rightarrow> int \<times> int \<Rightarrow> bool" where
  "cornerOrder a b \<longleftrightarrow> snd a < snd b \<or> (snd a = snd b \<and> fst a + 4 \<le> fst b)"

text \<open>
  A test image, 11 pixels wide and 7 high: intensity 200 everywhere except for the two
  pixels (3, 3) and (7, 3), which have intensity 100.
\<close>

definition twoDots :: "goint list" where
  "twoDots = map (\<lambda>n. if n = 36 \<or> n = 40 then 100 else 200) [0..<77]"

section \<open>Pixel comparator\<close>

lemma sint_sub_exact:
  "- (2 ^ 63) \<le> sint (a::goint) - sint b \<Longrightarrow> sint a - sint b < 2 ^ 63 \<Longrightarrow> sint (a - b) = sint a - sint b"
  by (simp add: sint_word_ariths signed_take_bit_int_eq_self)

lemma sint_neg_exact:
  "0 \<le> sint (t::goint) \<Longrightarrow> sint (- t) = - sint t"
  using sint_lt [of t] by (simp add: sint_word_ariths signed_take_bit_int_eq_self)

lemma neg_not_above:
  "0 \<le>s (t::goint) \<Longrightarrow> \<not> t <s - t"
  by (simp add: word_sless_alt word_sle_eq sint_neg_exact)

text \<open>
  C8. \<^verbatim>\<open>isBrighter(a, b, threshold)\<close> is true iff \<open>a - b > threshold\<close> and
  \<^verbatim>\<open>isDarker(a, b, threshold)\<close> is true iff \<open>b - a > threshold\<close>, where \<open>-\<close> and
  \<open>>\<close> are Go's subtraction and signed comparison on \<^verbatim>\<open>int\<close>. Both are strict: when
  the difference a predicate compares equals the threshold, it is false, and for a
  threshold that is not negative both predicates are false as soon as either difference
  equals the threshold. Whenever the mathematical difference of the two signed values is
  representable in 64 bits, the comparison is the one on the mathematical integers.
\<close>

theorem comparator_strict:
  "(isBrighter a b t \<longleftrightarrow> t <s a - b) \<and>
   (isDarker a b t \<longleftrightarrow> t <s b - a) \<and>
   (a - b = t \<longrightarrow> \<not> isBrighter a b t) \<and>
   (b - a = t \<longrightarrow> \<not> isDarker a b t) \<and>
   (0 \<le>s t \<and> (a - b = t \<or> b - a = t) \<longrightarrow> \<not> isBrighter a b t \<and> \<not> isDarker a b t) \<and>
   (- (2 ^ 63) \<le> sint a - sint b \<and> sint a - sint b < 2 ^ 63 \<longrightarrow>
      (isBrighter a b t \<longleftrightarrow> sint t < sint a - sint b)) \<and>
   (- (2 ^ 63) \<le> sint b - sint a \<and> sint b - sint a < 2 ^ 63 \<longrightarrow>
      (isDarker a b t \<longleftrightarrow> sint t < sint b - sint a))"
proof -
  have neg: "b - a = - (a - b)" "a - b = - (b - a)" by simp_all
  have "0 \<le>s t \<Longrightarrow> a - b = t \<Longrightarrow> \<not> t <s b - a"
    using neg_not_above [of t] by (simp add: neg(1))
  moreover have "0 \<le>s t \<Longrightarrow> b - a = t \<Longrightarrow> \<not> t <s a - b"
    using neg_not_above [of t] by (simp add: neg(2))
  ultimately show ?thesis
    by (auto simp: isBrighter_def isDarker_def word_sless_alt sint_sub_exact)
qed

theorem comparator_strict_witness:
  "\<not> isBrighter 120 100 (20::goint) \<and> \<not> isDarker 120 100 20 \<and> isBrighter 121 100 20 \<and>
   isDarker 100 121 20 \<and> \<not> isDarker 100 120 20"
  using comparator_strict [of 120 100 20] comparator_strict [of 121 100 20]
    comparator_strict [of 100 121 20] comparator_strict [of 100 120 20]
  by simp


section \<open>Circle geometry\<close>

lemma offsets_eq:
  "getCircleOffsets width =
     [- 3 * width, - 3 * width + 1, - 2 * width + 2, - width + 3, 3, width + 3, 2 * width + 2,
      3 * width + 1, 3 * width, 3 * width - 1, 2 * width - 2, width - 3, - 3, - width - 3,
      - 2 * width - 2, - 3 * width - 1]"
  by (simp add: getCircleOffsets_def Let_def)






section \<open>Segment test and fast rejection\<close>

lemma and15: "(n::nat) AND 15 = n mod 16"
proof -
  have "n AND mask 4 = take_bit 4 n" by (simp only: take_bit_eq_mask)
  then show ?thesis by (simp add: take_bit_eq_mod mask_eq_exp_minus_1)
qed

lemma all_from_split:
  "y < n \<Longrightarrow> (\<forall>y'. y \<le> y' \<and> y' < n \<longrightarrow> Q y') \<longleftrightarrow> Q y \<and> (\<forall>y'. Suc y \<le> y' \<and> y' < n \<longrightarrow> Q y')"
proof (intro iffI conjI allI impI)
  fix y' assume n: "y < n" and h: "Q y \<and> (\<forall>y'. Suc y \<le> y' \<and> y' < n \<longrightarrow> Q y')" and y': "y \<le> y' \<and> y' < n"
  show "Q y'"
  proof (cases "y' = y")
    case True with h show ?thesis by simp
  next
    case False with y' have "Suc y \<le> y'" by simp
    with h y' show ?thesis by blast
  qed
qed auto

lemma arcB_step: "y < 9 \<Longrightarrow> arcB p cp t x y \<longleftrightarrow> isBrighter p (cp ! ((x + y) mod 16)) t \<and> arcB p cp t x (Suc y)"
  unfolding arcB_def by (rule all_from_split)
lemma arcD_step: "y < 9 \<Longrightarrow> arcD p cp t x y \<longleftrightarrow> isDarker p (cp ! ((x + y) mod 16)) t \<and> arcD p cp t x (Suc y)"
  unfolding arcD_def by (rule all_from_split)
lemma arcB_end: "\<not> y < 9 \<Longrightarrow> arcB p cp t x y" by (auto simp: arcB_def)
lemma arcD_end: "\<not> y < 9 \<Longrightarrow> arcD p cp t x y" by (auto simp: arcD_def)

lemma arcLoop_flags:
  "arcLoop p cp t x y b d = (b \<and> arcB p cp t x y, d \<and> arcD p cp t x y)"
proof (induction p cp t x y b d rule: arcLoop.induct)
  case (1 p cp t x y b d)
  show ?case
  proof (cases "y < 9")
    case False
    then show ?thesis by (subst arcLoop.simps) (simp add: arcB_end arcD_end)
  next
    case True
    let ?c = "cp ! ((x + y) mod 16)"
    note IH = "1.IH" [OF True refl, unfolded and15]
    show ?thesis
      using True IH
      apply (subst arcLoop.simps)
      apply (cases "isBrighter p ?c t"; cases "isDarker p ?c t"; cases b; cases d)
      apply (simp_all add: Let_def and15 arcB_step arcD_step)
      done
  qed
qed


lemma startLoop_ex:
  "startLoop p cp t x \<longleftrightarrow> (\<exists>x'. x \<le> x' \<and> x' < 16 \<and> (arcB p cp t x' 0 \<or> arcD p cp t x' 0))"
proof (induction p cp t x rule: startLoop.induct)
  case (1 p cp t x)
  show ?case
  proof (cases "x < 16")
    case False
    then show ?thesis by (subst startLoop.simps) auto
  next
    case True
    show ?thesis
    proof (cases "arcB p cp t x 0 \<or> arcD p cp t x 0")
      case hit: True
      with True show ?thesis
        by (subst startLoop.simps) (auto simp: arcLoop_flags)
    next
      case miss: False
      have "startLoop p cp t x = startLoop p cp t (x + 1)"
        using True miss by (subst startLoop.simps) (simp add: arcLoop_flags)
      also have "\<dots> \<longleftrightarrow> (\<exists>x'. x + 1 \<le> x' \<and> x' < 16 \<and> (arcB p cp t x' 0 \<or> arcD p cp t x' 0))"
        using True miss "1.IH" by (simp add: arcLoop_flags)
      also have "\<dots> \<longleftrightarrow> (\<exists>x'. x \<le> x' \<and> x' < 16 \<and> (arcB p cp t x' 0 \<or> arcD p cp t x' 0))"
      proof
        assume "\<exists>x'. x + 1 \<le> x' \<and> x' < 16 \<and> (arcB p cp t x' 0 \<or> arcD p cp t x' 0)"
        then obtain x' where "x + 1 \<le> x'" "x' < 16" "arcB p cp t x' 0 \<or> arcD p cp t x' 0" by blast
        then show "\<exists>x'. x \<le> x' \<and> x' < 16 \<and> (arcB p cp t x' 0 \<or> arcD p cp t x' 0)"
          by (intro exI [of _ x']) simp
      next
        assume "\<exists>x'. x \<le> x' \<and> x' < 16 \<and> (arcB p cp t x' 0 \<or> arcD p cp t x' 0)"
        then obtain x' where x': "x \<le> x'" "x' < 16" "arcB p cp t x' 0 \<or> arcD p cp t x' 0" by blast
        with miss have "x' \<noteq> x" by blast
        with x' show "\<exists>x'. x + 1 \<le> x' \<and> x' < 16 \<and> (arcB p cp t x' 0 \<or> arcD p cp t x' 0)"
          by (intro exI [of _ x']) simp
      qed
      finally show ?thesis .
    qed
  qed
qed

lemma excluded_iff:
  "\<not> isTriviallyExcluded cp p t \<longleftrightarrow>
     3 \<le> length (filter (\<lambda>k. t <s cp ! k - p) [0, 4, 8, 12]) \<or>
     3 \<le> length (filter (\<lambda>k. t <s p - cp ! k) [0, 4, 8, 12])"
  by (simp add: isTriviallyExcluded_def isBrighter_def isDarker_def Let_def)


lemma arcB_0: "arcB p cp t x 0 \<longleftrightarrow> (\<forall>y<9. t <s p - cp ! ((x + y) mod 16))"
  by (simp add: arcB_def isBrighter_def)

lemma arcD_0: "arcD p cp t x 0 \<longleftrightarrow> (\<forall>y<9. t <s cp ! ((x + y) mod 16) - p)"
  by (simp add: arcD_def isDarker_def)

lemma startLoop_0:
  "startLoop p cp t 0 \<longleftrightarrow>
     (\<exists>x<16. (\<forall>y<9. t <s cp ! ((x + y) mod 16) - p) \<or>
              (\<forall>y<9. t <s p - cp ! ((x + y) mod 16)))"
proof -
  have "startLoop p cp t 0 \<longleftrightarrow> (\<exists>x<16. arcB p cp t x 0 \<or> arcD p cp t x 0)"
    by (simp add: startLoop_ex)
  also have "\<dots> \<longleftrightarrow> (\<exists>x<16. arcD p cp t x 0 \<or> arcB p cp t x 0)"
    by blast
  finally show ?thesis
    by (simp only: arcB_0 arcD_0)
qed

text \<open>
  C2. For a 16-entry sample \<open>cp\<close>, \<^verbatim>\<open>isCorner(p, cp, t)\<close> is true iff (a) at least 3
  of the samples at indices 0, 4, 8, 12 satisfy \<open>cp[k] - p > t\<close> or at least 3 of them
  satisfy \<open>p - cp[k] > t\<close>, and (b) some start \<open>x < 16\<close> has all 9 samples
  \<open>cp[(x + y) mod 16]\<close>, \<open>y < 9\<close>, with \<open>cp[..] - p > t\<close>, or all 9 with
  \<open>p - cp[..] > t\<close>. The early exits of the inner loop do not change the result.
\<close>

theorem isCorner_iff:
  assumes "length cp = 16"
  shows "isCorner p cp t \<longleftrightarrow>
     (3 \<le> length (filter (\<lambda>k. t <s cp ! k - p) [0, 4, 8, 12]) \<or>
      3 \<le> length (filter (\<lambda>k. t <s p - cp ! k) [0, 4, 8, 12])) \<and>
     (\<exists>x<16. (\<forall>y<9. t <s cp ! ((x + y) mod 16) - p) \<or>
              (\<forall>y<9. t <s p - cp ! ((x + y) mod 16)))"
proof -
  have "isCorner p cp t \<longleftrightarrow> \<not> isTriviallyExcluded cp p t \<and> startLoop p cp t 0"
    by (simp add: isCorner_def)
  then show ?thesis
    by (simp only: excluded_iff startLoop_0)
qed

theorem isCorner_iff_witness:
  "length [100, 200, 200, 200, 200, 200, 200, 200, 200, 200, 100, 100, 100, 100, 100, 100 :: goint] = 16 \<and>
   \<not> isCorner 100 [100, 200, 200, 200, 200, 200, 200, 200, 200, 200, 100, 100, 100, 100, 100, 100] 20 \<and>
   length (replicate 16 (200 :: goint)) = 16 \<and>
   isCorner 100 (replicate 16 200) 20"
proof -
  let ?cp = "[100, 200, 200, 200, 200, 200, 200, 200, 200, 200, 100, 100, 100, 100, 100, 100 :: goint]"
  have len: "length ?cp = 16" by simp
  have "\<not> (3 \<le> length (filter (\<lambda>k. 20 <s ?cp ! k - 100) [0, 4, 8, 12]) \<or>
           3 \<le> length (filter (\<lambda>k. 20 <s 100 - ?cp ! k) [0, 4, 8, 12]))"
    by (simp add: word_sless_alt)
  then have no: "\<not> isCorner 100 ?cp 20"
    using isCorner_iff [OF len, of 100 20] by blast
  have len': "length (replicate 16 (200 :: goint)) = 16" by simp
  have "3 \<le> length (filter (\<lambda>k. 20 <s replicate 16 (200 :: goint) ! k - 100) [0, 4, 8, 12])"
    by simp
  moreover have "\<exists>x<16::nat. (\<forall>y<9. (20::goint) <s replicate 16 200 ! ((x + y) mod 16) - 100) \<or>
              (\<forall>y<9. (20::goint) <s 100 - replicate 16 200 ! ((x + y) mod 16))"
    by (intro exI [of _ 0]) simp
  ultimately have yes: "isCorner 100 (replicate 16 200) 20"
    using isCorner_iff [OF len', of 100 20] by blast
  from len no len' yes show ?thesis by blast
qed

text \<open>
  C1. The claim is that the fast rejection never changes the verdict of the segment
  test. It does: with \<open>p = 100\<close>, threshold 20 and the circle samples 1 to 9 at 200 (all
  others at 100) the arc of 9 starting at position 1 is brighter than \<open>p\<close> by more than
  the threshold, so the segment test alone accepts, but only two of the four samples at
  0, 4, 8, 12 lie on that arc, so the rejection excludes the candidate and
  \<^verbatim>\<open>isCorner\<close> returns false.
\<close>

theorem rejection_changes_verdict:
  "\<not> isCorner 100 [100, 200, 200, 200, 200, 200, 200, 200, 200, 200, 100, 100, 100, 100, 100, 100] 20 \<and>
   segmentTest 100 [100, 200, 200, 200, 200, 200, 200, 200, 200, 200, 100, 100, 100, 100, 100, 100] 20"
  by code_simp


section \<open>Scan driver\<close>

subsection \<open>The loops against the scan of the specification\<close>

lemma offsets_length: "length (getCircleOffsets width) = 16"
  by (simp add: offsets_eq)

lemma readPixel_Some: "0 \<le> i \<Longrightarrow> i < int (length pixels) \<Longrightarrow> readPixel pixels i = Some (pixels ! nat i)"
  by (simp add: readPixel_def)

lemma readPixel_None: "\<not> (0 \<le> i \<and> i < int (length pixels)) \<Longrightarrow> readPixel pixels i = None"
  by (simp add: readPixel_def)

lemma gatherLoop_from:
  "k \<le> 16 \<Longrightarrow> length cp = 16 \<Longrightarrow>
   gatherLoop pixels w offs k cp =
     (if \<forall>k'. k \<le> k' \<and> k' < 16 \<longrightarrow> 0 \<le> w + offs ! k' \<and> w + offs ! k' < int (length pixels)
      then Some (take k cp @ map (\<lambda>k'. pixels ! nat (w + offs ! k')) [k..<16])
      else None)"
proof (induction pixels w offs k cp rule: gatherLoop.induct)
  case (1 pixels w offs k cp)
  let ?ok = "\<lambda>k'. 0 \<le> w + offs ! k' \<and> w + offs ! k' < int (length pixels)"
  show ?case
  proof (cases "k < 16")
    case False
    with "1.prems" have "k = 16" by simp
    with "1.prems" show ?thesis by (subst gatherLoop.simps) simp
  next
    case True
    note split = all_from_split [OF True, of ?ok]
    show ?thesis
    proof (cases "?ok k")
      case False
      then have "readPixel pixels (w + offs ! k) = None" by (rule readPixel_None)
      with True False show ?thesis
        by (subst gatherLoop.simps) (auto simp: split)
    next
      case ok: True
      let ?v = "pixels ! nat (w + offs ! k)"
      have rd: "readPixel pixels (w + offs ! k) = Some ?v"
        using ok by (simp add: readPixel_Some)
      have "gatherLoop pixels w offs k cp = gatherLoop pixels w offs (k + 1) (cp[k := ?v])"
        using True rd by (subst gatherLoop.simps) simp
      also have "\<dots> = (if \<forall>k'. k + 1 \<le> k' \<and> k' < 16 \<longrightarrow> ?ok k'
          then Some (take (k + 1) (cp[k := ?v]) @ map (\<lambda>k'. pixels ! nat (w + offs ! k')) [k + 1..<16])
          else None)"
        using True "1.prems" by (intro "1.IH" [OF True rd]) simp_all
      also have "take (k + 1) (cp[k := ?v]) = take k cp @ [?v]"
        using True "1.prems" by (simp add: take_Suc_conv_app_nth)
      also have "(take k cp @ [?v]) @ map (\<lambda>k'. pixels ! nat (w + offs ! k')) [k + 1..<16]
           = take k cp @ map (\<lambda>k'. pixels ! nat (w + offs ! k')) [k..<16]"
        using True by (simp add: upt_conv_Cons)
      finally show ?thesis
        using ok by (simp add: split)
    qed
  qed
qed

lemma gatherLoop_eq:
  assumes "length cp = 16"
  shows "gatherLoop pixels (i * width + j) (getCircleOffsets width) 0 cp =
     (if \<forall>k<16. 0 \<le> i * width + j + getCircleOffsets width ! k \<and>
                  i * width + j + getCircleOffsets width ! k < int (length pixels)
      then Some (sampleAt pixels width i j) else None)"
  using gatherLoop_from [of 0 cp pixels "i * width + j" "getCircleOffsets width"] assms
  by (simp add: sampleAt_def)

lemma sampleAt_length: "length (sampleAt pixels width i j) = 16"
  by (simp add: sampleAt_def)

lemma colLoop_done:
  "\<not> j < width - 3 \<Longrightarrow> colLoop pixels width t offs i j cp cs = Some (cp, cs)"
  by (subst colLoop.simps) simp

lemma colLoop_panic:
  "j < width - 3 \<Longrightarrow> length cp = 16 \<Longrightarrow> \<not> readable pixels width i j \<Longrightarrow>
   colLoop pixels width t (getCircleOffsets width) i j cp cs = None"
  by (subst colLoop.simps)
     (auto simp: Let_def readPixel_def gatherLoop_eq readable_def split: option.splits)

lemma colLoop_step:
  assumes "j < width - 3" "length cp = 16" "readable pixels width i j"
  shows "colLoop pixels width t (getCircleOffsets width) i j cp cs =
     (if accepts pixels width t i j
      then colLoop pixels width t (getCircleOffsets width) i (j + 4)
             (sampleAt pixels width i j) (cs @ [j, i])
      else colLoop pixels width t (getCircleOffsets width) i (j + 1)
             (sampleAt pixels width i j) cs)"
proof -
  have rd: "readPixel pixels (i * width + j) = Some (pixels ! nat (i * width + j))"
    using assms(3) by (simp add: readable_def readPixel_def)
  have g: "gatherLoop pixels (i * width + j) (getCircleOffsets width) 0 cp
             = Some (sampleAt pixels width i j)"
    using assms(2,3) by (simp add: gatherLoop_eq readable_def)
  show ?thesis
  proof (cases "accepts pixels width t i j")
    case True
    with assms(1) rd g show ?thesis
      by (subst colLoop.simps) (simp add: Let_def accepts_def, simp add: add.commute)
  next
    case False
    with assms(1) rd g show ?thesis
      by (subst colLoop.simps) (simp add: Let_def accepts_def)
  qed
qed

lemma interleave_Nil: "interleave [] = []"
  by (simp add: interleave_def)

lemma interleave_Cons: "interleave ((x, y) # ps) = x # y # interleave ps"
  by (simp add: interleave_def)

lemma interleave_append: "interleave (ps @ qs) = interleave ps @ interleave qs"
  by (simp add: interleave_def)

lemma pairs_interleave: "pairs (interleave ps) = ps"
  by (induction ps) (auto simp: interleave_Nil interleave_Cons)


lemma scanRow_done: "\<not> col \<le> width - 4 \<Longrightarrow> scanRow accept width row col = []"
  by (subst scanRow.simps) simp

lemma scanRow_hit:
  "col \<le> width - 4 \<Longrightarrow> accept col \<Longrightarrow>
   scanRow accept width row col = (col, row) # scanRow accept width row (col + 4)"
  by (subst scanRow.simps) simp

lemma scanRow_miss:
  "col \<le> width - 4 \<Longrightarrow> \<not> accept col \<Longrightarrow>
   scanRow accept width row col = scanRow accept width row (col + 1)"
  by (subst scanRow.simps) simp

lemma colLoop_char:
  assumes agree: "\<And>j'. readable pixels width i j' \<Longrightarrow> acc j' \<longleftrightarrow> accepts pixels width t i j'"
  shows "length cp = 16 \<Longrightarrow>
   colLoop pixels width t (getCircleOffsets width) i j cp cs = None \<or>
   (\<exists>cp'. length cp' = 16 \<and>
      colLoop pixels width t (getCircleOffsets width) i j cp cs =
        Some (cp', cs @ interleave (scanRow acc width i j)))"
proof (induction "nat (width - 3 - j)" arbitrary: j cp cs rule: less_induct)
  case less
  show ?case
  proof (cases "j < width - 3")
    case False
    with less.prems show ?thesis
      by (simp add: colLoop_done scanRow_done interleave_Nil)
  next
    case True
    show ?thesis
    proof (cases "readable pixels width i j")
      case False
      with True less.prems show ?thesis by (simp add: colLoop_panic)
    next
      case rd: True
      note step = colLoop_step [OF True less.prems rd]
      show ?thesis
      proof (cases "accepts pixels width t i j")
        case True
        then have acc: "acc j" using agree [OF rd] by simp
        have "nat (width - 3 - (j + 4)) < nat (width - 3 - j)"
          using \<open>j < width - 3\<close> by simp
        from less.hyps [OF this, of "sampleAt pixels width i j" "cs @ [j, i]"]
        show ?thesis
          using True acc \<open>j < width - 3\<close>
          by (simp add: step sampleAt_length scanRow_hit interleave_Cons)
      next
        case False
        then have acc: "\<not> acc j" using agree [OF rd] by simp
        have "nat (width - 3 - (j + 1)) < nat (width - 3 - j)"
          using \<open>j < width - 3\<close> by simp
        from less.hyps [OF this, of "sampleAt pixels width i j" cs]
        show ?thesis
          using False acc \<open>j < width - 3\<close>
          by (simp add: step sampleAt_length scanRow_miss)
      qed
    qed
  qed
qed


lemma scanRows_done: "\<not> i < height - 3 \<Longrightarrow> scanRows accept width height i = []"
  by (simp add: scanRows_def)

lemma scanRows_step:
  "i < height - 3 \<Longrightarrow>
   scanRows accept width height i = scanRow (accept i) width i 3 @ scanRows accept width height (i + 1)"
  by (simp add: scanRows_def upto_rec1 [of i])

lemma rowLoop_done: "\<not> i < height - 3 \<Longrightarrow> rowLoop pixels width height t offs i cp cs = Some cs"
  by (subst rowLoop.simps) simp

lemma rowLoop_char:
  assumes agree: "\<And>i' j'. readable pixels width i' j' \<Longrightarrow> acc i' j' \<longleftrightarrow> accepts pixels width t i' j'"
  shows "length cp = 16 \<Longrightarrow>
   rowLoop pixels width height t (getCircleOffsets width) i cp cs = None \<or>
   rowLoop pixels width height t (getCircleOffsets width) i cp cs =
     Some (cs @ interleave (scanRows acc width height i))"
proof (induction "nat (height - 3 - i)" arbitrary: i cp cs rule: less_induct)
  case less
  show ?case
  proof (cases "i < height - 3")
    case False
    then show ?thesis by (simp add: rowLoop_done scanRows_done interleave_Nil)
  next
    case True
    have m: "nat (height - 3 - (i + 1)) < nat (height - 3 - i)" using True by simp
    from colLoop_char [of pixels width i "acc i" t cp 3 cs, OF agree less.prems]
    show ?thesis
    proof
      assume "colLoop pixels width t (getCircleOffsets width) i 3 cp cs = None"
      with True show ?thesis by (subst rowLoop.simps) simp
    next
      assume "\<exists>cp'. length cp' = 16 \<and>
        colLoop pixels width t (getCircleOffsets width) i 3 cp cs =
          Some (cp', cs @ interleave (scanRow (acc i) width i 3))"
      then obtain cp' where cp': "length cp' = 16"
        and col: "colLoop pixels width t (getCircleOffsets width) i 3 cp cs =
          Some (cp', cs @ interleave (scanRow (acc i) width i 3))"
        by blast
      have unf: "rowLoop pixels width height t (getCircleOffsets width) i cp cs =
        rowLoop pixels width height t (getCircleOffsets width) (i + 1) cp'
          (cs @ interleave (scanRow (acc i) width i 3))"
        using True col by (subst rowLoop.simps) simp
      from less.hyps [OF m cp', of "cs @ interleave (scanRow (acc i) width i 3)"]
      show ?thesis
        using True by (simp add: unf scanRows_step interleave_append)
    qed
  qed
qed


lemma findCorners_char_gen:
  assumes "\<And>i j. readable pixels width i j \<Longrightarrow> acc i j \<longleftrightarrow> accepts pixels width t i j"
  shows "findCorners pixels width height t = None \<or>
   findCorners pixels width height t = Some (interleave (scanImage acc width height))"
  using rowLoop_char [of pixels width acc t "replicate 16 0" height 3 "[]", OF assms]
  by (simp add: findCorners_def Let_def scanImage_def scanRows_def)

lemma findCorners_char:
  "findCorners pixels width height t = None \<or>
   findCorners pixels width height t =
     Some (interleave (scanImage (accepts pixels width t) width height))"
  by (rule findCorners_char_gen) simp


subsection \<open>Reads of a full buffer are in range\<close>





subsection \<open>Shape of the reported list\<close>

lemma scanRow_set:
  "(x, y) \<in> set (scanRow acc width row col) \<Longrightarrow> col \<le> x \<and> x \<le> width - 4 \<and> y = row \<and> acc x"
proof (induction "nat (width - 3 - col)" arbitrary: col rule: less_induct)
  case less
  show ?case
  proof (cases "col \<le> width - 4")
    case False
    with less.prems show ?thesis by (simp add: scanRow_done)
  next
    case True
    show ?thesis
    proof (cases "acc col")
      case hit: True
      have m: "nat (width - 3 - (col + 4)) < nat (width - 3 - col)" using True by simp
      from less.prems True hit have "(x, y) = (col, row) \<or> (x, y) \<in> set (scanRow acc width row (col + 4))"
        by (simp add: scanRow_hit)
      then show ?thesis
      proof
        assume "(x, y) = (col, row)" with True hit show ?thesis by simp
      next
        assume "(x, y) \<in> set (scanRow acc width row (col + 4))"
        from less.hyps [OF m this] show ?thesis by simp
      qed
    next
      case miss: False
      have m: "nat (width - 3 - (col + 1)) < nat (width - 3 - col)" using True by simp
      from less.prems True miss have "(x, y) \<in> set (scanRow acc width row (col + 1))"
        by (simp add: scanRow_miss)
      from less.hyps [OF m this] show ?thesis by simp
    qed
  qed
qed

lemma scanRow_sorted: "sorted_wrt cornerOrder (scanRow acc width row col)"
proof (induction "nat (width - 3 - col)" arbitrary: col rule: less_induct)
  case less
  show ?case
  proof (cases "col \<le> width - 4")
    case False
    then show ?thesis by (simp add: scanRow_done)
  next
    case True
    show ?thesis
    proof (cases "acc col")
      case hit: True
      have m: "nat (width - 3 - (col + 4)) < nat (width - 3 - col)" using True by simp
      have "cornerOrder (col, row) q" if "q \<in> set (scanRow acc width row (col + 4))" for q
        using scanRow_set [of "fst q" "snd q" acc width row "col + 4"] that
        by (simp add: cornerOrder_def)
      with less.hyps [OF m] True hit show ?thesis
        by (simp add: scanRow_hit)
    next
      case miss: False
      have m: "nat (width - 3 - (col + 1)) < nat (width - 3 - col)" using True by simp
      with less.hyps [OF m] True miss show ?thesis by (simp add: scanRow_miss)
    qed
  qed
qed

lemma scanRows_set:
  "(x, y) \<in> set (scanRows acc width height i) \<Longrightarrow>
     3 \<le> x \<and> x \<le> width - 4 \<and> i \<le> y \<and> y \<le> height - 4 \<and> acc y x"
  unfolding scanRows_def using scanRow_set [of x y] by fastforce

lemma scanRows_sorted: "sorted_wrt cornerOrder (scanRows acc width height i)"
proof (induction "nat (height - 3 - i)" arbitrary: i rule: less_induct)
  case less
  show ?case
  proof (cases "i < height - 3")
    case False
    then show ?thesis by (simp add: scanRows_done)
  next
    case True
    have m: "nat (height - 3 - (i + 1)) < nat (height - 3 - i)" using True by simp
    have "cornerOrder a b" if "a \<in> set (scanRow (acc i) width i 3)"
      "b \<in> set (scanRows acc width height (i + 1))" for a b
      using scanRow_set [of "fst a" "snd a" "acc i" width i 3]
        scanRows_set [of "fst b" "snd b" acc width height "i + 1"] that
      by (simp add: cornerOrder_def)
    with less.hyps [OF m] scanRow_sorted [of "acc i" width i 3] True show ?thesis
      by (simp add: scanRows_step sorted_wrt_append)
  qed
qed

lemma scanImage_scanRows: "scanImage acc width height = scanRows acc width height 3"
  by (simp add: scanImage_def scanRows_def)

lemma cornerOrder_distinct: "sorted_wrt cornerOrder ps \<Longrightarrow> distinct ps"
  by (induction ps) (auto simp: cornerOrder_def)

lemma findCorners_scan:
  "findCorners pixels width height t = Some cs \<Longrightarrow>
   cs = interleave (scanImage (accepts pixels width t) width height)"
  using findCorners_char [of pixels width height t] by auto

subsection \<open>Raising the threshold\<close>










subsection \<open>Uniform images, small images, full buffers\<close>








subsection \<open>The test image\<close>


lemma twoDots_low: "findCorners twoDots 11 7 20 = Some [3, 3, 7, 3]"
  by code_simp


section \<open>Properties of the scan\<close>

text \<open>
  C3. Whenever \<^verbatim>\<open>findCorners\<close> returns, its result is a list of pairs \<open>(x, y)\<close>
  (\<open>x\<close> before \<open>y\<close>), and every pair satisfies \<open>3 \<le> x \<le> width - 4\<close> and
  \<open>3 \<le> y \<le> height - 4\<close>: no corner is reported in the 3-pixel border.
\<close>

theorem border_exclusion:
  assumes "findCorners pixels width height t = Some cs"
  shows "cs = interleave (pairs cs) \<and>
    (\<forall>(x, y) \<in> set (pairs cs). 3 \<le> x \<and> x \<le> width - 4 \<and> 3 \<le> y \<and> y \<le> height - 4)"
proof -
  let ?ps = "scanImage (accepts pixels width t) width height"
  from findCorners_scan [OF assms] have cs: "cs = interleave ?ps" .
  then have ps: "pairs cs = ?ps" by (simp add: pairs_interleave)
  have "3 \<le> x \<and> x \<le> width - 4 \<and> 3 \<le> y \<and> y \<le> height - 4" if "(x, y) \<in> set ?ps" for x y
    using scanRows_set [of x y "accepts pixels width t" width height 3] that
    by (simp add: scanImage_scanRows)
  with cs ps show ?thesis by auto
qed

theorem border_exclusion_witness:
  "findCorners twoDots 11 7 20 = Some [3, 3, 7, 3] \<and>
   (7, 3) \<in> set (pairs [3, 3, 7, 3]) \<and>
   (3 :: int) \<le> 7 \<and> (7 :: int) \<le> 11 - 4 \<and> (3 :: int) \<le> 3 \<and> (3 :: int) \<le> 7 - 4"
proof -
  have m: "(7, 3) \<in> set (pairs [3, 3, 7, 3])" by simp
  from border_exclusion [OF twoDots_low] m
  have "(3 :: int) \<le> 7 \<and> (7 :: int) \<le> 11 - 4 \<and> (3 :: int) \<le> 3 \<and> (3 :: int) \<le> 7 - 4"
    by blast
  with twoDots_low m show ?thesis by blast
qed









text \<open>
  C10. Whenever \<^verbatim>\<open>findCorners\<close> returns, of any two reported corners with the same
  \<open>y\<close> the later one has an \<open>x\<close> larger by at least 4, and no pair is reported twice.
\<close>

theorem same_row_spacing:
  assumes "findCorners pixels width height t = Some cs"
  shows "(\<forall>a b. a < b \<and> b < length (pairs cs) \<and> snd (pairs cs ! a) = snd (pairs cs ! b) \<longrightarrow>
            fst (pairs cs ! a) + 4 \<le> fst (pairs cs ! b)) \<and>
         distinct (pairs cs)"
proof -
  let ?ps = "scanImage (accepts pixels width t) width height"
  from findCorners_scan [OF assms] have ps: "pairs cs = ?ps" by (simp add: pairs_interleave)
  have s: "sorted_wrt cornerOrder ?ps"
    unfolding scanImage_scanRows by (rule scanRows_sorted)
  have "fst (?ps ! a) + 4 \<le> fst (?ps ! b)"
    if "a < b" "b < length ?ps" "snd (?ps ! a) = snd (?ps ! b)" for a b
  proof -
    from s that(1,2) have "cornerOrder (?ps ! a) (?ps ! b)"
      by (simp add: sorted_wrt_iff_nth_less)
    with that(3) show ?thesis by (simp add: cornerOrder_def)
  qed
  moreover from s have "distinct ?ps" by (rule cornerOrder_distinct)
  ultimately show ?thesis unfolding ps by blast
qed

theorem same_row_spacing_witness:
  "findCorners twoDots 11 7 20 = Some [3, 3, 7, 3] \<and>
   (0 :: nat) < 1 \<and> 1 < length (pairs [3, 3, 7, 3]) \<and>
   snd (pairs [3, 3, 7, 3] ! 0) = snd (pairs [3, 3, 7, 3] ! 1) \<and>
   fst (pairs [3, 3, 7, 3] ! 0) + 4 \<le> fst (pairs [3, 3, 7, 3] ! 1) \<and>
   distinct (pairs [3, 3, 7, 3])"
  using same_row_spacing [OF twoDots_low] twoDots_low by simp

end
